theory Spec2Isabelle
  imports Main "HOL-Library.AList"
begin

section \<open>Strings and character classes\<close>

text \<open>
  The source is \<^verbatim>\<open>organise_files.py\<close>. A Python \<^verbatim>\<open>str\<close> is a sequence of code points;
  here a string is a \<^typ>\<open>string\<close> whose characters are the code points 0 to 255, so
  \<^const>\<open>length\<close> counts code points as Python's \<^verbatim>\<open>len\<close> does. File names with code
  points above 255 are outside the model. In this range \<^verbatim>\<open>\s\<close> and \<^verbatim>\<open>str.strip()\<close>
  use the same whitespace set (9 to 13, 28 to 31, 32, 133, 160) and \<^verbatim>\<open>\d\<close> is the ten
  ASCII digits.
\<close>

definition code :: "char \<Rightarrow> nat" where
  "code c = of_char c"

definition between :: "char \<Rightarrow> char \<Rightarrow> char \<Rightarrow> bool" where
  "between lo hi c = (code lo \<le> code c \<and> code c \<le> code hi)"

definition is_space :: "char \<Rightarrow> bool" where
  "is_space c = (let n = code c in
     (9 \<le> n \<and> n \<le> 13) \<or> (28 \<le> n \<and> n \<le> 32) \<or> n = 133 \<or> n = 160)"

definition is_digit :: "char \<Rightarrow> bool" where
  "is_digit c = between (CHR ''0'') (CHR ''9'') c"

definition is_hex :: "char \<Rightarrow> bool" where
  "is_hex c = (between (CHR ''0'') (CHR ''9'') c \<or> between (CHR ''A'') (CHR ''F'') c
     \<or> between (CHR ''a'') (CHR ''f'') c)"

definition is_alnum :: "char \<Rightarrow> bool" where
  "is_alnum c = (between (CHR ''A'') (CHR ''Z'') c \<or> between (CHR ''a'') (CHR ''z'') c
     \<or> between (CHR ''0'') (CHR ''9'') c)"

definition dot :: "char \<Rightarrow> bool" where
  \<comment> \<open>\<^verbatim>\<open>.\<close> without DOTALL: anything but a newline\<close>
  "dot c = (c \<noteq> CHR 0x0A)"

definition lit :: "char \<Rightarrow> char \<Rightarrow> bool" where
  "lit a c = (c = a)"

definition other_than :: "char \<Rightarrow> char \<Rightarrow> bool" where
  \<comment> \<open>a negated one-character set such as \<^verbatim>\<open>[^)]\<close>\<close>
  "other_than a c = (c \<noteq> a)"

section \<open>Regular expressions as Python's backtracking matcher runs them\<close>

text \<open>
  Only the constructs of \<^verbatim>\<open>PATTERNS\<close> are modelled. Every repetition in the source is
  over a single character class, so repetition takes a class. The matcher is written
  with a continuation for the rest of the pattern: an alternative is tried in the
  engine's priority order and the first one whose continuation succeeds wins. A match
  state is the position, the rest of the input and the text captured by the group
  \<^verbatim>\<open>title\<close>.
\<close>

datatype rx =
    Chr "char \<Rightarrow> bool"
  | Bol
  | Eol
  | Star "char \<Rightarrow> bool"
  | Plus "char \<Rightarrow> bool"
  | LazyStar "char \<Rightarrow> bool"
  | LazyPlus "char \<Rightarrow> bool"
  | Times nat "char \<Rightarrow> bool"
  | Opt rx
  | Title rx
  | Eps
  | Seq rx rx

type_synonym mstate = "nat \<times> string \<times> string option"

fun one :: "(char \<Rightarrow> bool) \<Rightarrow> (mstate \<Rightarrow> mstate option) \<Rightarrow> mstate \<Rightarrow> mstate option" where
  "one p k (i, [], g) = None"
| "one p k (i, c # cs, g) = (if p c then k (Suc i, cs, g) else None)"

fun greedy :: "(char \<Rightarrow> bool) \<Rightarrow> (mstate \<Rightarrow> mstate option) \<Rightarrow> mstate \<Rightarrow> mstate option" where
  "greedy p k (i, [], g) = k (i, [], g)"
| "greedy p k (i, c # cs, g) =
     (if p c then
        (case greedy p k (Suc i, cs, g) of
           Some r \<Rightarrow> Some r
         | None \<Rightarrow> k (i, c # cs, g))
      else k (i, c # cs, g))"

fun lazy :: "(char \<Rightarrow> bool) \<Rightarrow> (mstate \<Rightarrow> mstate option) \<Rightarrow> mstate \<Rightarrow> mstate option" where
  "lazy p k (i, [], g) = k (i, [], g)"
| "lazy p k (i, c # cs, g) =
     (case k (i, c # cs, g) of
        Some r \<Rightarrow> Some r
      | None \<Rightarrow> if p c then lazy p k (Suc i, cs, g) else None)"

fun times :: "nat \<Rightarrow> (char \<Rightarrow> bool) \<Rightarrow> (mstate \<Rightarrow> mstate option) \<Rightarrow> mstate \<Rightarrow> mstate option" where
  "times 0 p k st = k st"
| "times (Suc n) p k st = one p (times n p k) st"

fun at_end :: "string \<Rightarrow> bool" where
  \<comment> \<open>\<^verbatim>\<open>$\<close> without MULTILINE: the end, or just before a newline that ends the string\<close>
  "at_end [] = True"
| "at_end [c] = (c = CHR 0x0A)"
| "at_end (c # d # cs) = False"

primrec run :: "rx \<Rightarrow> (mstate \<Rightarrow> mstate option) \<Rightarrow> mstate \<Rightarrow> mstate option" where
  "run (Chr p) k = one p k"
| "run Bol k = (\<lambda>(i, s, g). if i = 0 then k (i, s, g) else None)"
| "run Eol k = (\<lambda>(i, s, g). if at_end s then k (i, s, g) else None)"
| "run (Star p) k = greedy p k"
| "run (Plus p) k = one p (greedy p k)"
| "run (LazyStar p) k = lazy p k"
| "run (LazyPlus p) k = one p (lazy p k)"
| "run (Times n p) k = times n p k"
| "run (Opt r) k = (\<lambda>st. case run r k st of Some m \<Rightarrow> Some m | None \<Rightarrow> k st)"
| "run (Title r) k =
     (\<lambda>(i, s, g). run r (\<lambda>(j, t, h). k (j, t, Some (take (j - i) s))) (i, s, g))"
| "run Eps k = k"
| "run (Seq a b) k = run a (run b k)"

definition cat :: "rx list \<Rightarrow> rx" where
  "cat rs = foldr Seq rs Eps"

definition re_match :: "rx \<Rightarrow> string \<Rightarrow> mstate option" where
  \<comment> \<open>\<^verbatim>\<open>pat.match(s)\<close>: the match starts at position 0 and need not reach the end\<close>
  "re_match r s = run r Some (0, s, None)"

definition group_title :: "mstate \<Rightarrow> string option" where
  "group_title m = snd (snd m)"

definition EPISODE :: rx where
  "EPISODE = cat
     [Bol, Star is_space,
      Chr (lit (CHR ''['')), Plus (other_than (CHR '']'')), Chr (lit (CHR '']'')),
      Plus is_space,
      Title (LazyStar dot),
      Star is_space, Chr (lit (CHR ''-'')), Star is_space,
      cat [Plus is_digit, Opt (cat [Chr (lit (CHR ''.'')), Plus is_digit]),
           Opt (cat [Chr (lit (CHR ''v'')), Plus is_digit])],
      Opt (cat [Star is_space, Chr (lit (CHR ''('')), Plus (other_than (CHR '')'')),
                Chr (lit (CHR '')''))]),
      Star is_space, Chr (lit (CHR ''['')), Plus is_hex, Chr (lit (CHR '']'')),
      Chr (lit (CHR ''.'')), Plus is_alnum, Eol]"

definition MOVIE :: rx where
  "MOVIE = cat
     [Bol, Star is_space,
      Opt (cat [Chr (lit (CHR ''['')), Plus (other_than (CHR '']'')), Chr (lit (CHR '']'')),
                Plus is_space]),
      Title (LazyPlus dot), Star is_space,
      Chr (lit (CHR ''('')), Times 4 is_digit, Chr (lit (CHR '')'')),
      LazyStar dot, Chr (lit (CHR ''.'')), Plus is_alnum, Eol]"

definition PATTERNS :: "rx list" where
  "PATTERNS = [EPISODE, MOVIE]"

definition INVALID_CHARS :: "char \<Rightarrow> bool" where
  \<comment> \<open>the class \<^verbatim>\<open>[\\/:*?"<>|]\<close>\<close>
  "INVALID_CHARS c = (c \<in> set [CHR 0x5C, CHR ''/'', CHR '':'', CHR ''*'', CHR ''?'', CHR 0x22,
     CHR ''<'', CHR ''>'', CHR ''|''])"

section \<open>Helpers\<close>

fun sub :: "(char \<Rightarrow> bool) \<Rightarrow> string \<Rightarrow> string \<Rightarrow> string" where
  \<comment> \<open>\<^verbatim>\<open>re.sub\<close> for a pattern that is one character class\<close>
  "sub p repl [] = []"
| "sub p repl (c # cs) = (if p c then repl @ sub p repl cs else c # sub p repl cs)"

definition strip :: "string \<Rightarrow> string" where
  "strip s = rev (dropWhile is_space (rev (dropWhile is_space s)))"

definition sanitize :: "string \<Rightarrow> string" where
  "sanitize name = strip (sub INVALID_CHARS ''_'' name)"

fun first_match :: "rx list \<Rightarrow> string \<Rightarrow> string option" where
  \<comment> \<open>the \<^verbatim>\<open>for pat in PATTERNS\<close> loop. \<^verbatim>\<open>m.group("title")\<close> is a string whenever the
     group took part in the match; for both patterns it always does (lemma
     \<open>match_has_title\<close> below), so \<^const>\<open>the\<close> is only ever applied to a capture.\<close>
  "first_match [] filename = None"
| "first_match (pat # pats) filename =
     (case re_match pat filename of
        Some m \<Rightarrow> Some (sanitize (the (group_title m)))
      | None \<Rightarrow> first_match pats filename)"

definition extract_title :: "string \<Rightarrow> string option" where
  "extract_title filename = first_match PATTERNS filename"

section \<open>The file system\<close>

text \<open>
  The part of the file system the program can reach: the entries of the root directory
  it is given, with everything below them, and the entries of the root's parent, which
  a title \<^verbatim>\<open>..\<close> leads to. A directory is an association list from names to nodes, in
  the order \<^verbatim>\<open>iterdir\<close> lists them. A node is a regular file (contents, mtime), a
  directory (atime, mtime, entries) or a special file (FIFO, socket, device), which
  exists and is neither a regular file nor a directory. Time stamps are integers; the
  conversion through Python's floats is not modelled. There are no symbolic links, no
  permissions and one device; the kernel's own updates of directory times are not
  modelled, so a directory's times change through \<^verbatim>\<open>mkdir\<close> and \<^verbatim>\<open>os.utime\<close> only.
\<close>

type_synonym time = int

datatype node =
    File string time
  | Special
  | Dir time time "(string \<times> node) list"

type_synonym dir = "(string \<times> node) list"

record fsys =
  entries :: dir
  parent :: "dir option"
  root_name :: string
  clock :: time

text \<open>
  \<^const>\<open>parent\<close> holds the entries of the root's parent other than the root itself, and
  \<^const>\<open>root_name\<close> the root's name there; \<^const>\<open>parent\<close> is \<^const>\<open>None\<close> when the root is
  \<^verbatim>\<open>/\<close>, whose \<^verbatim>\<open>..\<close> is itself. \<^const>\<open>clock\<close> is the time a new directory is stamped with.
\<close>

datatype exn = FileExistsError | FileNotFoundError | ShutilError

datatype event =
    Skipped string string
  | Moved string string
  | Summary nat

text \<open>
  One \<^verbatim>\<open>print\<close> call is one event: \<^term>\<open>Skipped title name\<close> is the notice
  \<^verbatim>\<open>Skipped (already exists): root/title/name\<close>, \<^term>\<open>Moved name folder\<close> the notice
  \<^verbatim>\<open>Moved: name -> folder/\<close> and \<^term>\<open>Summary n\<close> the last line, whose text is
  \<^verbatim>\<open>summary_text n\<close> below.
\<close>

fun decimal :: "nat \<Rightarrow> string" where
  "decimal n = (if n < 10 then [char_of (48 + n)]
     else decimal (n div 10) @ [char_of (48 + n mod 10)])"

definition summary_text :: "nat \<Rightarrow> string" where
  "summary_text n = ''Done. '' @ decimal n @ '' file(s) moved; folder timestamps updated.''"

fun is_dir :: "node option \<Rightarrow> bool" where
  "is_dir (Some (Dir a m es)) = True"
| "is_dir other = False"


datatype place = Here | Up | Sub string

definition place_of :: "string \<Rightarrow> place" where
  \<comment> \<open>where \<^verbatim>\<open>root / title\<close> leads\<close>
  "place_of title = (if title = ''.'' then Here else if title = ''..'' then Up else Sub title)"

definition mkdir :: "place \<Rightarrow> fsys \<Rightarrow> exn + fsys" where
  \<comment> \<open>\<^verbatim>\<open>dest_dir.mkdir(exist_ok=True)\<close>\<close>
  "mkdir d fs =
     (case d of
        Sub t \<Rightarrow>
          (case map_of (entries fs) t of
             None \<Rightarrow> Inr (fs\<lparr>entries := entries fs @ [(t, Dir (clock fs) (clock fs) [])]\<rparr>)
           | Some x \<Rightarrow> if is_dir (Some x) then Inr fs else Inl FileExistsError)
      | other \<Rightarrow> Inr fs)"

definition target_exists :: "fsys \<Rightarrow> place \<Rightarrow> string \<Rightarrow> bool" where
  \<comment> \<open>\<^verbatim>\<open>(dest_dir / name).exists()\<close>\<close>
  "target_exists fs d name =
     (case d of
        Here \<Rightarrow> map_of (entries fs) name \<noteq> None
      | Up \<Rightarrow>
          (case parent fs of
             None \<Rightarrow> map_of (entries fs) name \<noteq> None
           | Some es \<Rightarrow> name = root_name fs \<or> map_of es name \<noteq> None)
      | Sub t \<Rightarrow>
          (case map_of (entries fs) t of
             Some (Dir a m es) \<Rightarrow> map_of es name \<noteq> None
           | other \<Rightarrow> False))"

fun put :: "string \<Rightarrow> node \<Rightarrow> node \<Rightarrow> node" where
  "put name x (Dir a m es) = Dir a m (es @ [(name, x)])"
| "put name x other = other"

definition move :: "string \<Rightarrow> place \<Rightarrow> fsys \<Rightarrow> exn + fsys" where
  \<comment> \<open>\<^verbatim>\<open>shutil.move(str(entry), target)\<close> for a target that does not exist: a rename.
     A missing source raises; so does a source that is the destination folder itself,
     which \<^verbatim>\<open>shutil\<close> refuses to move into itself.\<close>
  "move name d fs =
     (case map_of (entries fs) name of
        None \<Rightarrow> Inl FileNotFoundError
      | Some x \<Rightarrow>
          (case d of
             Sub t \<Rightarrow>
               if t = name then Inl ShutilError
               else Inr (fs\<lparr>entries :=
                      AList.map_entry t (put name x) (AList.delete name (entries fs))\<rparr>)
           | Up \<Rightarrow>
               (case parent fs of
                  Some es \<Rightarrow>
                    Inr (fs\<lparr>entries := AList.delete name (entries fs),
                            parent := Some (es @ [(name, x)])\<rparr>)
                | None \<Rightarrow> Inr fs)
           | Here \<Rightarrow> Inr fs))"

section \<open>The folder time stamp synchroniser\<close>

fun rglob :: "node \<Rightarrow> node list" where
  \<comment> \<open>\<^verbatim>\<open>folder.rglob("*")\<close>: every entry below the folder, at any depth\<close>
  "rglob (Dir a m es) = concat (map (\<lambda>e. snd e # rglob (snd e)) es)"
| "rglob other = []"

fun file_mtime :: "node \<Rightarrow> time option" where
  "file_mtime (File c t) = Some t"
| "file_mtime other = None"

fun utime :: "node \<Rightarrow> time \<Rightarrow> time \<Rightarrow> node" where
  "utime (Dir a m es) a' m' = Dir a' m' es"
| "utime other a' m' = other"

definition sync_folder_mtime :: "node \<Rightarrow> node" where
  \<comment> \<open>\<^verbatim>\<open>if mtimes:\<close> is the case of a list that is not empty, where \<^verbatim>\<open>max\<close> cannot raise\<close>
  "sync_folder_mtime folder =
     (case List.map_filter file_mtime (rglob folder) of
        [] \<Rightarrow> folder
      | t # ts \<Rightarrow> (let newest = fold max ts t in utime folder newest newest))"

section \<open>The organiser\<close>

record rstate =
  fs :: fsys
  out :: "event list"
  moved :: nat
  asked :: "string list"

text \<open>
  The state of a run: the file system, what has been printed, the counter, and the
  arguments \<^verbatim>\<open>extract_title\<close> has been called with, in order. \<^verbatim>\<open>root.iterdir()\<close> reads
  the names of the directory once, when the loop starts, so each loop runs over the
  names the root had at that moment, while \<^verbatim>\<open>is_dir\<close>, \<^verbatim>\<open>mkdir\<close>, \<^verbatim>\<open>exists\<close> and the move
  see the file system as the steps before have left it.
\<close>

definition scan_entry :: "string \<Rightarrow> rstate \<Rightarrow> exn option \<times> rstate" where
  \<comment> \<open>the body of the first loop; an exception ends the run in the state it was raised in\<close>
  "scan_entry name r =
     (if is_dir (map_of (entries (fs r)) name) then (None, r)
      else
        (let r1 = r\<lparr>asked := asked r @ [name]\<rparr> in
         case extract_title name of
           None \<Rightarrow> (None, r1)
         | Some title \<Rightarrow>
             if title = [] then (None, r1)
             else
               (case mkdir (place_of title) (fs r1) of
                  Inl e \<Rightarrow> (Some e, r1)
                | Inr fs1 \<Rightarrow>
                    if target_exists fs1 (place_of title) name then
                      (None, r1\<lparr>fs := fs1, out := out r1 @ [Skipped title name]\<rparr>)
                    else
                      (case move name (place_of title) fs1 of
                         Inl e \<Rightarrow> (Some e, r1\<lparr>fs := fs1\<rparr>)
                       | Inr fs2 \<Rightarrow>
                           (None, r1\<lparr>fs := fs2, moved := moved r1 + 1,
                                     out := out r1 @ [Moved name title]\<rparr>)))))"

fun scan :: "string list \<Rightarrow> rstate \<Rightarrow> exn option \<times> rstate" where
  "scan [] r = (None, r)"
| "scan (name # names) r =
     (case scan_entry name r of
        (Some e, r') \<Rightarrow> (Some e, r')
      | (None, r') \<Rightarrow> scan names r')"

definition sync_entry :: "string \<Rightarrow> fsys \<Rightarrow> fsys" where
  \<comment> \<open>the body of the second loop\<close>
  "sync_entry name s =
     (if is_dir (map_of (entries s) name)
      then s\<lparr>entries := AList.map_entry name sync_folder_mtime (entries s)\<rparr>
      else s)"

definition sync_pass :: "fsys \<Rightarrow> fsys" where
  "sync_pass s = fold sync_entry (map fst (entries s)) s"

definition organise :: "fsys \<Rightarrow> exn option \<times> rstate" where
  "organise root =
     (case scan (map fst (entries root)) \<lparr>fs = root, out = [], moved = 0, asked = []\<rparr> of
        (Some e, r) \<Rightarrow> (Some e, r)
      | (None, r) \<Rightarrow>
          (None, r\<lparr>fs := sync_pass (fs r), out := out r @ [Summary (moved r)]\<rparr>))"

section \<open>The entry point\<close>

text \<open>
  What the resolved argument names: nothing, something that is not a directory, or a
  directory. \<^verbatim>\<open>sys.exit\<close> with a string prints it on standard error and exits with
  status 1, and so does an exception nobody catches, with its traceback.
\<close>

datatype arg = Missing | NotADirectory node | Directory fsys

datatype complaint = ErrorNotADirectory | Traceback exn

record outcome =
  status :: nat
  stdout :: "event list"
  stderr :: "complaint option"
  after :: arg

definition main :: "arg \<Rightarrow> outcome" where
  "main a =
     (case a of
        Directory root \<Rightarrow>
          (case organise root of
             (None, r) \<Rightarrow>
               \<lparr>status = 0, stdout = out r, stderr = None, after = Directory (fs r)\<rparr>
           | (Some e, r) \<Rightarrow>
               \<lparr>status = 1, stdout = out r, stderr = Some (Traceback e),
                after = Directory (fs r)\<rparr>)
      | other \<Rightarrow>
          \<lparr>status = 1, stdout = [], stderr = Some ErrorNotADirectory, after = other\<rparr>)"

section \<open>What the specification says, in its own words\<close>

text \<open>
  The reserved characters as the specification lists them (backslash, forward slash,
  colon, asterisk, question mark, double quote, less-than, greater-than, pipe), and a
  string with each of them replaced by an underscore.
\<close>

definition reserved :: "char \<Rightarrow> bool" where
  "reserved c = (c = CHR 0x5C \<or> c = CHR ''/'' \<or> c = CHR '':'' \<or> c = CHR ''*'' \<or> c = CHR ''?''
     \<or> c = CHR 0x22 \<or> c = CHR ''<'' \<or> c = CHR ''>'' \<or> c = CHR ''|'')"

definition replaced :: "string \<Rightarrow> string" where
  "replaced s = map (\<lambda>c. if reserved c then CHR ''_'' else c) s"



section \<open>Notions used in the proofs\<close>

text \<open>
  Whether a pattern sets the group \<^verbatim>\<open>title\<close> on every path through it; whether a match
  state is at a position of a string, with the rest of the string ahead of it; and what
  a successful run of the matcher hands to its continuation: a state that holds a
  capture when the run started with one or the pattern sets it, and that is at a
  position of the string when the run started at one.
\<close>

primrec sets_title :: "rx \<Rightarrow> bool" where
  "sets_title (Chr p) = False"
| "sets_title Bol = False"
| "sets_title Eol = False"
| "sets_title (Star p) = False"
| "sets_title (Plus p) = False"
| "sets_title (LazyStar p) = False"
| "sets_title (LazyPlus p) = False"
| "sets_title (Times n p) = False"
| "sets_title (Opt r) = False"
| "sets_title (Title r) = True"
| "sets_title Eps = False"
| "sets_title (Seq a b) = (sets_title a \<or> sets_title b)"

definition aligned :: "string \<Rightarrow> mstate \<Rightarrow> bool" where
  "aligned s st = (fst st \<le> length s \<and> fst (snd st) = drop (fst st) s)"

definition arrives :: "string \<Rightarrow> (mstate \<Rightarrow> mstate option) \<Rightarrow> mstate \<Rightarrow> bool \<Rightarrow> mstate \<Rightarrow> bool" where
  "arrives s k st sure m =
     (\<exists>st'. k st' = Some m
        \<and> (snd (snd st) \<noteq> None \<or> sure \<longrightarrow> snd (snd st') \<noteq> None)
        \<and> (aligned s st \<longrightarrow> aligned s st'))"

text \<open>
  An entry is quiet when the first loop leaves it where it is: it is a directory, it has
  no title or an empty one, or its target exists. It is settled when it is quiet or gone.
\<close>

definition quiet :: "fsys \<Rightarrow> string \<Rightarrow> bool" where
  "quiet s n =
     (is_dir (map_of (entries s) n)
      \<or> (case extract_title n of
            None \<Rightarrow> True
          | Some t \<Rightarrow> t = [] \<or> target_exists s (place_of t) n))"

definition settled :: "fsys \<Rightarrow> string \<Rightarrow> bool" where
  "settled s n = (map_of (entries s) n = None \<or> quiet s n)"

fun is_skip :: "event \<Rightarrow> bool" where
  "is_skip (Skipped t n) = True"
| "is_skip other = False"

text \<open>
  Kinds of events, and the number of move notices among some events.
\<close>

fun is_summary :: "event \<Rightarrow> bool" where
  "is_summary (Summary n) = True"
| "is_summary other = False"

fun is_moved :: "event \<Rightarrow> bool" where
  "is_moved (Moved n t) = True"
| "is_moved other = False"

definition count_moved :: "event list \<Rightarrow> nat" where
  "count_moved evs = length (filter is_moved evs)"

text \<open>
  \<open>in_folder s t n y\<close>: in the file system \<open>s\<close> the root has a folder \<open>t\<close> that holds the
  node \<open>y\<close> under the name \<open>n\<close>.
\<close>

definition in_folder :: "fsys \<Rightarrow> string \<Rightarrow> string \<Rightarrow> node \<Rightarrow> bool" where
  "in_folder s t n y =
     (\<exists>a m es. map_of (entries s) t = Some (Dir a m es) \<and> map_of es n = Some y)"

section \<open>Sample file systems\<close>



definition sample_root :: fsys where
  "sample_root =
     \<lparr>entries =
        [(''[G] X - 01 [AB].mkv'', File ''b'' 7),
         (''Y (2001) x.mkv'', File ''m'' 8),
         (''[G] .. - 01 [AB].mkv'', File ''c'' 9),
         (''randomfile.txt'', File ''r'' 3),
         (''Z'', Dir 1 2 [(''[G] Z - 02 [CD].mkv'', File ''old'' 4)]),
         (''[G] Z - 02 [CD].mkv'', File ''new'' 5)],
      parent = Some [], root_name = ''videos'', clock = 100\<rparr>"

definition lone_root :: fsys where
  "lone_root =
     \<lparr>entries = [(''randomfile.txt'', File ''r'' 3)],
      parent = Some [], root_name = ''videos'', clock = 100\<rparr>"

definition blank_root :: fsys where
  "blank_root =
     \<lparr>entries = [(''[Group] - 01 [AB].mkv'', File ''e'' 3), (''[G]  (2000).mkv'', File ''w'' 4)],
      parent = Some [], root_name = ''videos'', clock = 100\<rparr>"


definition clash_root :: fsys where
  "clash_root =
     \<lparr>entries = [(''X'', File ''a'' 5), (''[G] X - 01 [AB].mkv'', File ''b'' 7)],
      parent = Some [], root_name = ''videos'', clock = 100\<rparr>"


section \<open>The sanitizer\<close>

lemma INVALID_CHARS_reserved: "INVALID_CHARS c = reserved c"
  by (auto simp add: INVALID_CHARS_def reserved_def)

lemma sub_replaced: "sub INVALID_CHARS ''_'' s = replaced s"
  by (induction s) (simp_all add: replaced_def INVALID_CHARS_reserved)

lemma underscore_not_reserved: "\<not> reserved (CHR ''_'')"
  by (simp add: reserved_def)

lemma replaced_clean: "list_all (\<lambda>c. \<not> reserved c) (replaced s)"
  by (induction s) (simp_all add: replaced_def underscore_not_reserved)

lemma replaced_id: "list_all (\<lambda>c. \<not> reserved c) s \<Longrightarrow> replaced s = s"
  by (induction s) (simp_all add: replaced_def)

lemma strip_split:
  "s = takeWhile is_space s @ strip s @ rev (takeWhile is_space (rev (dropWhile is_space s)))"
proof -
  let ?y = "dropWhile is_space s"
  have "rev ?y = takeWhile is_space (rev ?y) @ dropWhile is_space (rev ?y)"
    by simp
  then have "?y = rev (dropWhile is_space (rev ?y)) @ rev (takeWhile is_space (rev ?y))"
    by (metis rev_append rev_rev_ident)
  then have "?y = strip s @ rev (takeWhile is_space (rev ?y))"
    by (simp add: strip_def)
  moreover have "s = takeWhile is_space s @ ?y"
    by simp
  ultimately show ?thesis
    by metis
qed

lemma strip_sublist: "set (strip s) \<subseteq> set s"
proof -
  have "set (strip s) \<subseteq> set (dropWhile is_space s)"
    unfolding strip_def using set_dropWhileD by fastforce
  then show ?thesis
    using set_dropWhileD by fastforce
qed

lemma strip_last: "strip s \<noteq> [] \<Longrightarrow> \<not> is_space (last (strip s))"
proof -
  assume ne: "strip s \<noteq> []"
  let ?d = "dropWhile is_space (rev (dropWhile is_space s))"
  from ne have "?d \<noteq> []" by (simp add: strip_def)
  then have "\<not> is_space (hd ?d)" by (rule hd_dropWhile)
  moreover have "last (strip s) = hd ?d"
    using \<open>?d \<noteq> []\<close> by (simp add: strip_def last_rev)
  ultimately show ?thesis by simp
qed

lemma strip_hd: "strip s \<noteq> [] \<Longrightarrow> \<not> is_space (hd (strip s))"
proof -
  assume ne: "strip s \<noteq> []"
  let ?y = "dropWhile is_space s"
  have y: "?y = strip s @ rev (takeWhile is_space (rev ?y))"
    using strip_split [of s] by (metis takeWhile_dropWhile_id same_append_eq)
  from ne y have "?y \<noteq> []" by (metis append_is_Nil_conv)
  then have "\<not> is_space (hd ?y)" by (rule hd_dropWhile)
  moreover from y ne have "hd ?y = hd (strip s)" by (metis hd_append2)
  ultimately show ?thesis by simp
qed

lemma strip_fixed:
  assumes "s = [] \<or> (\<not> is_space (hd s) \<and> \<not> is_space (last s))"
  shows "strip s = s"
proof (cases s)
  case Nil
  then show ?thesis by (simp add: strip_def)
next
  case (Cons c cs)
  with assms have h: "\<not> is_space (hd s)" and l: "\<not> is_space (last s)" by auto
  from h Cons have "dropWhile is_space s = s" by simp
  moreover from l have "dropWhile is_space (rev s) = rev s"
    by (simp add: dropWhile_eq_self_iff hd_rev)
  ultimately show ?thesis by (simp add: strip_def)
qed

lemma strip_strip: "strip (strip s) = strip s"
  using strip_fixed [of "strip s"] strip_hd [of s] strip_last [of s] by blast

lemma sanitize_clean: "list_all (\<lambda>c. \<not> reserved c) (sanitize s)"
  using replaced_clean [of s] strip_sublist [of "replaced s"]
  by (auto simp add: list_all_iff sanitize_def sub_replaced)

text \<open>
  C6. \<^const>\<open>sanitize\<close> is a total function of its input. Its result is the input with
  every reserved character replaced by an underscore, less a run of whitespace at the
  front and a run of whitespace at the back; it is empty or neither begins nor ends
  with whitespace, so all leading and trailing whitespace is gone; it holds no reserved
  character; and the empty string gives the empty string.
\<close>

theorem sanitize_spec:
  "(\<exists>pre suf. replaced s = pre @ sanitize s @ suf \<and> list_all is_space pre \<and> list_all is_space suf)
   \<and> (sanitize s = [] \<or> (\<not> is_space (hd (sanitize s)) \<and> \<not> is_space (last (sanitize s))))
   \<and> list_all (\<lambda>c. \<not> reserved c) (sanitize s)
   \<and> sanitize [] = []"
proof -
  let ?t = "replaced s"
  have eq: "sanitize s = strip ?t"
    by (simp add: sanitize_def sub_replaced)
  have "?t = takeWhile is_space ?t @ sanitize s
      @ rev (takeWhile is_space (rev (dropWhile is_space ?t)))"
    using strip_split [of ?t] eq by simp
  moreover have "list_all is_space (takeWhile is_space ?t)"
    by (simp add: list_all_iff) (meson set_takeWhileD)
  moreover have "list_all is_space (rev (takeWhile is_space (rev (dropWhile is_space ?t))))"
    by (simp add: list_all_iff) (meson set_takeWhileD)
  ultimately have a: "\<exists>pre suf. ?t = pre @ sanitize s @ suf \<and> list_all is_space pre
      \<and> list_all is_space suf"
    by blast
  have b: "sanitize s = [] \<or> (\<not> is_space (hd (sanitize s)) \<and> \<not> is_space (last (sanitize s)))"
    using strip_hd [of ?t] strip_last [of ?t] eq by auto
  have d: "sanitize [] = []"
    by (simp add: sanitize_def strip_def)
  from a b sanitize_clean [of s] d show ?thesis by blast
qed

text \<open>
  C7. \<^const>\<open>sanitize\<close> is idempotent.
\<close>

theorem sanitize_idempotent: "sanitize (sanitize s) = sanitize s"
proof -
  have "replaced (sanitize s) = sanitize s"
    using sanitize_clean [of s] by (rule replaced_id)
  then have "sanitize (sanitize s) = strip (sanitize s)"
    by (simp add: sanitize_def sub_replaced)
  also have "\<dots> = sanitize s"
    by (simp add: sanitize_def strip_strip)
  finally show ?thesis .
qed

section \<open>The title extractor\<close>

text \<open>
  C4. The three file names of the specification's scenarios give the titles it states.
\<close>

theorem extract_title_scenarios:
  "extract_title ''[SubsPlease] Series Title - 03v2 (720p) [ABCDEF12].mkv'' = Some ''Series Title''
   \<and> extract_title ''[SubsPlease] Aparida - 09.5 (720p) [F40254DB].mkv'' = Some ''Aparida''
   \<and> extract_title ''I Want to Eat Your Pancreas (2018) 1080p AV1 Opus [UnAV1Chain] v2.mkv''
       = Some ''I Want to Eat Your Pancreas''"
  by code_simp

lemma aligned_next: "aligned s (i, c # cs, g) \<Longrightarrow> aligned s (Suc i, cs, g)"
proof -
  assume a: "aligned s (i, c # cs, g)"
  then have d: "drop i s = c # cs" by (simp add: aligned_def)
  then have "i < length s" by (metis drop_all list.distinct(1) not_le)
  moreover from d have "drop (Suc i) s = cs"
    by (metis drop_Suc list.sel(3) tl_drop)
  ultimately show ?thesis by (simp add: aligned_def)
qed

lemma aligned_title: "aligned s (i, t, g) \<Longrightarrow> aligned s (i, t, h)"
  by (simp add: aligned_def)

lemma arrives_here: "k st = Some m \<Longrightarrow> arrives s k st False m"
  unfolding arrives_def by blast

lemma arrives_weaken: "arrives s k st b m \<Longrightarrow> arrives s k st False m"
  unfolding arrives_def by blast

lemma arrives_trans:
  "arrives s k' st False m' \<Longrightarrow> (\<And>st'. k' st' = Some m' \<Longrightarrow> arrives s k st' b m')
     \<Longrightarrow> arrives s k st b m'"
  unfolding arrives_def by blast

lemma arrives_step:
  assumes "arrives s k (Suc i, cs, g) False m"
  shows "arrives s k (i, c # cs, g) False m"
proof -
  from assms obtain st' where k: "k st' = Some m"
    and t: "g \<noteq> None \<longrightarrow> snd (snd st') \<noteq> None"
    and a: "aligned s (Suc i, cs, g) \<longrightarrow> aligned s st'"
    unfolding arrives_def by fastforce
  from a have "aligned s (i, c # cs, g) \<longrightarrow> aligned s st'"
    using aligned_next [of s i c cs g] by blast
  with k t show ?thesis
    unfolding arrives_def by (intro exI [of _ st']) simp
qed

lemma one_arrives: "one p k st = Some m \<Longrightarrow> arrives s k st False m"
proof (induction p k st rule: one.induct)
  case (1 p k i g)
  then show ?case by simp
next
  case (2 p k i c cs g)
  then have "k (Suc i, cs, g) = Some m" by (simp split: if_splits)
  then have "arrives s k (Suc i, cs, g) False m" by (rule arrives_here)
  then show ?case by (rule arrives_step)
qed

lemma greedy_arrives: "greedy p k st = Some m \<Longrightarrow> arrives s k st False m"
proof (induction p k st rule: greedy.induct)
  case (1 p k i g)
  then show ?case by (simp add: arrives_here)
next
  case (2 p k i c cs g)
  show ?case
  proof (cases "p c \<and> greedy p k (Suc i, cs, g) \<noteq> None")
    case True
    with "2.prems" have "greedy p k (Suc i, cs, g) = Some m"
      by (auto split: option.splits)
    with True have "arrives s k (Suc i, cs, g) False m" using "2.IH" by simp
    then show ?thesis by (rule arrives_step)
  next
    case False
    with "2.prems" have "k (i, c # cs, g) = Some m"
      by (auto split: if_splits option.splits)
    then show ?thesis by (rule arrives_here)
  qed
qed

lemma lazy_arrives: "lazy p k st = Some m \<Longrightarrow> arrives s k st False m"
proof (induction p k st rule: lazy.induct)
  case (1 p k i g)
  then show ?case by (simp add: arrives_here)
next
  case (2 p k i c cs g)
  show ?case
  proof (cases "k (i, c # cs, g)")
    case None
    with "2.prems" have pc: "p c" and "lazy p k (Suc i, cs, g) = Some m"
      by (auto split: if_splits)
    with None have "arrives s k (Suc i, cs, g) False m" using "2.IH" by simp
    then show ?thesis by (rule arrives_step)
  next
    case (Some a)
    with "2.prems" have "k (i, c # cs, g) = Some m" by simp
    then show ?thesis by (rule arrives_here)
  qed
qed

lemma times_arrives: "times n p k st = Some m \<Longrightarrow> arrives s k st False m"
proof (induction n arbitrary: st)
  case 0
  then show ?case by (simp add: arrives_here)
next
  case (Suc n)
  then have "arrives s (times n p k) st False m"
    using one_arrives by simp
  then show ?case
    using Suc.IH by (rule arrives_trans)
qed

lemma run_arrives: "run r k st = Some m \<Longrightarrow> arrives s k st (sets_title r) m"
proof (induction r arbitrary: k st)
  case (Chr p)
  then show ?case using one_arrives by simp
next
  case Bol
  then have "k st = Some m" by (cases st) (simp split: if_splits)
  then show ?case by (simp add: arrives_here)
next
  case Eol
  then have "k st = Some m" by (cases st) (simp split: if_splits)
  then show ?case by (simp add: arrives_here)
next
  case (Star p)
  then show ?case using greedy_arrives by simp
next
  case (Plus p)
  then have "arrives s (greedy p k) st False m" using one_arrives by simp
  then show ?case using greedy_arrives by (simp add: arrives_trans)
next
  case (LazyStar p)
  then show ?case using lazy_arrives by simp
next
  case (LazyPlus p)
  then have "arrives s (lazy p k) st False m" using one_arrives by simp
  then show ?case using lazy_arrives by (simp add: arrives_trans)
next
  case (Times n p)
  then show ?case using times_arrives by simp
next
  case (Opt r)
  show ?case
  proof (cases "run r k st")
    case None
    with Opt.prems show ?thesis by (simp add: arrives_here)
  next
    case (Some a)
    with Opt.prems have "run r k st = Some m" by simp
    then have "arrives s k st (sets_title r) m" by (rule Opt.IH)
    then show ?thesis by (simp add: arrives_weaken)
  qed
next
  case (Title r)
  obtain i t g where st: "st = (i, t, g)" by (cases st)
  let ?k = "\<lambda>(j, u, h). k (j, u, Some (take (j - i) t))"
  from Title.prems st have "run r ?k st = Some m" by simp
  then have "arrives s ?k st (sets_title r) m" by (rule Title.IH)
  then obtain st' where k: "?k st' = Some m" and a: "aligned s st \<longrightarrow> aligned s st'"
    by (auto simp add: arrives_def)
  obtain j u h where st': "st' = (j, u, h)" by (cases st')
  with k have "k (j, u, Some (take (j - i) t)) = Some m" by simp
  moreover from a st' have "aligned s st \<longrightarrow> aligned s (j, u, Some (take (j - i) t))"
    using aligned_title by blast
  ultimately show ?case
    unfolding arrives_def by (intro exI [of _ "(j, u, Some (take (j - i) t))"]) simp
next
  case Eps
  then show ?case by (simp add: arrives_here)
next
  case (Seq a b)
  then have "arrives s (run b k) st (sets_title a) m" by simp
  then obtain st' where k: "run b k st' = Some m"
    and g: "snd (snd st) \<noteq> None \<or> sets_title a \<longrightarrow> snd (snd st') \<noteq> None"
    and al: "aligned s st \<longrightarrow> aligned s st'"
    by (auto simp add: arrives_def)
  from k have "arrives s k st' (sets_title b) m" by (rule Seq.IH)
  with g al show ?case by (auto simp add: arrives_def)
qed

lemma cat_Cons: "cat (r # rs) = Seq r (cat rs)"
  by (simp add: cat_def)

lemma sets_title_EPISODE: "sets_title EPISODE"
  by (simp add: EPISODE_def cat_Cons)

lemma sets_title_MOVIE: "sets_title MOVIE"
  by (simp add: MOVIE_def cat_Cons)

lemma match_has_title:
  assumes "re_match r s = Some m" and "sets_title r"
  shows "group_title m \<noteq> None \<and> aligned s m"
proof -
  from assms(1) have "arrives s Some (0, s, None) (sets_title r) m"
    unfolding re_match_def by (rule run_arrives)
  moreover have "aligned s (0, s, None)" by (simp add: aligned_def)
  ultimately show ?thesis
    using assms(2) by (auto simp add: arrives_def group_title_def)
qed

section \<open>Properties of the synchroniser\<close>







section \<open>The steps of the organiser\<close>

lemma map_of_snoc:
  "map_of (es @ [(t, x)]) n =
     (case map_of es n of None \<Rightarrow> (if n = t then Some x else None) | Some y \<Rightarrow> Some y)"
  by (simp add: map_add_def split: option.splits)

lemma mkdir_cases:
  assumes "mkdir d s = Inr s1"
  shows "s1 = s \<or> (\<exists>t. d = Sub t \<and> map_of (entries s) t = None
     \<and> s1 = s\<lparr>entries := entries s @ [(t, Dir (clock s) (clock s) [])]\<rparr>)"
  using assms by (auto simp add: mkdir_def split: place.splits option.splits if_splits)

lemma mkdir_lookup:
  assumes "mkdir d s = Inr s1"
  shows "map_of (entries s1) n = map_of (entries s) n
     \<or> (d = Sub n \<and> map_of (entries s) n = None \<and> is_dir (map_of (entries s1) n))"
  using mkdir_cases [OF assms] by (auto simp add: map_add_def split: option.splits if_splits)

lemma mkdir_rest:
  assumes "mkdir d s = Inr s1"
  shows "parent s1 = parent s \<and> root_name s1 = root_name s \<and> clock s1 = clock s"
  using mkdir_cases [OF assms] by auto

lemma mkdir_is_dir:
  assumes "mkdir d s = Inr s1" and "is_dir (map_of (entries s) n)"
  shows "is_dir (map_of (entries s1) n)"
  using mkdir_lookup [OF assms(1), of n] assms(2) by auto

lemma mkdir_present:
  assumes "mkdir d s = Inr s1" and "map_of (entries s) n = Some x"
  shows "map_of (entries s1) n = Some x"
  using mkdir_lookup [OF assms(1), of n] assms(2) by auto

lemma mkdir_target:
  assumes "mkdir d s = Inr s1" and "target_exists s d' n"
  shows "target_exists s1 d' n"
proof (cases d')
  case Here
  with assms(2) obtain x where "map_of (entries s) n = Some x"
    by (auto simp add: target_exists_def)
  then show ?thesis
    using mkdir_present [OF assms(1)] Here by (simp add: target_exists_def)
next
  case Up
  show ?thesis
  proof (cases "parent s")
    case None
    with assms(2) Up obtain x where "map_of (entries s) n = Some x"
      by (auto simp add: target_exists_def)
    then show ?thesis
      using mkdir_present [OF assms(1)] mkdir_rest [OF assms(1)] Up None
      by (simp add: target_exists_def)
  next
    case (Some es)
    then show ?thesis
      using assms(2) mkdir_rest [OF assms(1)] Up by (simp add: target_exists_def)
  qed
next
  case (Sub t)
  with assms(2) obtain a m es where "map_of (entries s) t = Some (Dir a m es)"
    and "map_of es n \<noteq> None"
    by (auto simp add: target_exists_def split: option.splits node.splits)
  then show ?thesis
    using mkdir_present [OF assms(1)] Sub by (simp add: target_exists_def)
qed

lemma target_exists_mkdir:
  assumes "target_exists s (place_of t) n"
  shows "mkdir (place_of t) s = Inr s"
  using assms
  by (auto simp add: target_exists_def mkdir_def split: place.splits option.splits node.splits)

lemma move_cases:
  assumes "move m d s1 = Inr s2"
  shows "\<exists>x. map_of (entries s1) m = Some x \<and>
     ((\<exists>t. d = Sub t \<and> t \<noteq> m
         \<and> s2 = s1\<lparr>entries := AList.map_entry t (put m x) (AList.delete m (entries s1))\<rparr>)
      \<or> (\<exists>es. d = Up \<and> parent s1 = Some es
         \<and> s2 = s1\<lparr>entries := AList.delete m (entries s1), parent := Some (es @ [(m, x)])\<rparr>)
      \<or> (s2 = s1 \<and> (d = Here \<or> (d = Up \<and> parent s1 = None))))"
  using assms
  by (auto simp add: move_def split: place.splits option.splits if_splits)

lemma put_is_dir: "is_dir (map_option (put m x) v) = is_dir v"
  by (cases v rule: is_dir.cases) simp_all

lemma move_lookup_other:
  assumes "move m d s1 = Inr s2" and "n \<noteq> m"
  shows "map_of (entries s2) n = map_of (entries s1) n
     \<or> (d = Sub n \<and> (\<exists>x. map_of (entries s2) n = map_option (put m x) (map_of (entries s1) n)))"
  using move_cases [OF assms(1)] assms(2)
  by (auto simp add: map_of_map_entry map_option_case split: if_splits)

lemma move_is_dir:
  assumes "move m d s1 = Inr s2" and "is_dir (map_of (entries s1) n)" and "n \<noteq> m"
  shows "is_dir (map_of (entries s2) n)"
  using move_lookup_other [OF assms(1) assms(3)] assms(2) by (auto simp add: put_is_dir)

lemma move_absent:
  assumes "move m d s1 = Inr s2" and "map_of (entries s1) n = None"
  shows "map_of (entries s2) n = None"
  using move_cases [OF assms(1)] assms(2)
  by (auto simp add: map_of_map_entry AList.delete_conv')

lemma move_gone:
  assumes "move m d s1 = Inr s2" and "\<not> target_exists s1 d m"
  shows "map_of (entries s2) m = None"
  using move_cases [OF assms(1)] assms(2)
  by (auto simp add: map_of_map_entry AList.delete_conv' target_exists_def)

lemma move_target:
  assumes "move m d s1 = Inr s2" and "target_exists s1 d' n" and "n \<noteq> m"
    and "\<not> is_dir (map_of (entries s1) m)"
  shows "target_exists s2 d' n"
proof -
  from move_cases [OF assms(1)] obtain x where x: "map_of (entries s1) m = Some x"
    and c: "(\<exists>t. d = Sub t \<and> t \<noteq> m
         \<and> s2 = s1\<lparr>entries := AList.map_entry t (put m x) (AList.delete m (entries s1))\<rparr>)
      \<or> (\<exists>es. d = Up \<and> parent s1 = Some es
         \<and> s2 = s1\<lparr>entries := AList.delete m (entries s1), parent := Some (es @ [(m, x)])\<rparr>)
      \<or> (s2 = s1 \<and> (d = Here \<or> (d = Up \<and> parent s1 = None)))"
    by blast
  have keep: "map_of (entries s2) n \<noteq> None" if "map_of (entries s1) n \<noteq> None"
    using c that assms(3) by (auto simp add: map_of_map_entry)
  have par: "parent s2 = parent s1 \<or> (\<exists>es. parent s1 = Some es \<and> parent s2 = Some (es @ [(m, x)]))"
    using c by auto
  have rn: "root_name s2 = root_name s1"
    using c by auto
  show ?thesis
  proof (cases d')
    case Here
    then show ?thesis using assms(2) keep by (simp add: target_exists_def)
  next
    case Up
    show ?thesis
    proof (cases "parent s1")
      case None
      then show ?thesis
        using assms(2) keep par Up by (auto simp add: target_exists_def)
    next
      case (Some es)
      then show ?thesis
        using assms(2) par rn Up by (auto simp add: target_exists_def map_of_snoc split: option.splits)
    qed
  next
    case (Sub t)
    with assms(2) obtain a mt es where t: "map_of (entries s1) t = Some (Dir a mt es)"
      and e: "map_of es n \<noteq> None"
      by (auto simp add: target_exists_def split: option.splits node.splits)
    from t x assms(4) have tm: "t \<noteq> m" by auto
    have "map_of (entries s2) t = Some (Dir a mt es)
      \<or> map_of (entries s2) t = Some (Dir a mt (es @ [(m, x)]))"
      using c t tm by (auto simp add: map_of_map_entry)
    then show ?thesis
      using e Sub by (auto simp add: target_exists_def map_of_snoc split: option.splits)
  qed
qed


lemma scan_entry_cases:
  assumes "scan_entry m r = (e, r')"
  obtains
    (dir) "is_dir (map_of (entries (fs r)) m)" "e = None" "r' = r"
  | (no_title) "\<not> is_dir (map_of (entries (fs r)) m)"
      "extract_title m = None \<or> extract_title m = Some []"
      "e = None" "fs r' = fs r" "out r' = out r" "moved r' = moved r"
      "asked r' = asked r @ [m]"
  | (refused) t x where "\<not> is_dir (map_of (entries (fs r)) m)"
      "extract_title m = Some t" "t \<noteq> []" "mkdir (place_of t) (fs r) = Inl x"
      "e = Some x" "fs r' = fs r" "out r' = out r" "moved r' = moved r"
      "asked r' = asked r @ [m]"
  | (skipped) t s1 where "\<not> is_dir (map_of (entries (fs r)) m)"
      "extract_title m = Some t" "t \<noteq> []" "mkdir (place_of t) (fs r) = Inr s1"
      "target_exists s1 (place_of t) m"
      "e = None" "fs r' = s1" "out r' = out r @ [Skipped t m]" "moved r' = moved r"
      "asked r' = asked r @ [m]"
  | (failed) t s1 x where "\<not> is_dir (map_of (entries (fs r)) m)"
      "extract_title m = Some t" "t \<noteq> []" "mkdir (place_of t) (fs r) = Inr s1"
      "\<not> target_exists s1 (place_of t) m" "move m (place_of t) s1 = Inl x"
      "e = Some x" "fs r' = s1" "out r' = out r" "moved r' = moved r"
      "asked r' = asked r @ [m]"
  | (moved) t s1 s2 where "\<not> is_dir (map_of (entries (fs r)) m)"
      "extract_title m = Some t" "t \<noteq> []" "mkdir (place_of t) (fs r) = Inr s1"
      "\<not> target_exists s1 (place_of t) m" "move m (place_of t) s1 = Inr s2"
      "e = None" "fs r' = s2" "out r' = out r @ [Moved m t]" "moved r' = moved r + 1"
      "asked r' = asked r @ [m]"
  using assms unfolding scan_entry_def Let_def
  by (auto split: if_splits option.splits sum.splits)

lemma move_not_self: "move m (Sub m) s = Inr s2 \<Longrightarrow> False"
  using move_cases [of m "Sub m" s s2] by auto

lemma moved_node_not_dir:
  assumes "\<not> is_dir (map_of (entries s) m)" and "mkdir d s = Inr s1"
    and "move m d s1 = Inr s2"
  shows "\<not> is_dir (map_of (entries s1) m)"
  using mkdir_lookup [OF assms(2), of m] assms(1) move_not_self assms(3) by auto


lemma mkdir_settled:
  assumes "mkdir d s = Inr s1" and "settled s n"
  shows "settled s1 n"
proof (cases "map_of (entries s) n = None")
  case True
  then show ?thesis
    using mkdir_lookup [OF assms(1), of n] by (auto simp add: settled_def quiet_def)
next
  case False
  with assms(2) have q: "quiet s n" by (simp add: settled_def)
  then have "quiet s1 n"
    unfolding quiet_def
    using mkdir_is_dir [OF assms(1), of n] mkdir_target [OF assms(1)]
    by (auto split: option.splits)
  then show ?thesis by (simp add: settled_def)
qed

lemma move_settled:
  assumes "move m d s1 = Inr s2" and "\<not> is_dir (map_of (entries s1) m)" and "n \<noteq> m"
    and "settled s1 n"
  shows "settled s2 n"
proof (cases "map_of (entries s1) n = None")
  case True
  then show ?thesis
    using move_absent [OF assms(1)] by (simp add: settled_def)
next
  case False
  with assms(4) have q: "quiet s1 n" by (simp add: settled_def)
  then have "quiet s2 n"
    unfolding quiet_def
    using move_is_dir [OF assms(1) _ assms(3)] move_target [OF assms(1) _ assms(3) assms(2)]
    by (auto split: option.splits)
  then show ?thesis by (simp add: settled_def)
qed

lemma step_settles:
  assumes "scan_entry m r = (None, r')"
  shows "settled (fs r') m"
  using assms
proof (cases rule: scan_entry_cases)
  case (moved t s1 s2)
  then show ?thesis
    using move_gone [OF moved(6) moved(5)] by (simp add: settled_def)
qed (auto simp add: settled_def quiet_def)

lemma step_keeps:
  assumes "scan_entry m r = (e, r')" and "settled (fs r) n" and "n \<noteq> m"
  shows "settled (fs r') n"
  using assms(1)
proof (cases rule: scan_entry_cases)
  case (moved t s1 s2)
  have "settled s1 n"
    using mkdir_settled [OF moved(4) assms(2)] .
  then show ?thesis
    using move_settled [OF moved(6) moved_node_not_dir [OF moved(1) moved(4) moved(6)] assms(3)]
      moved(8) by simp
qed (use assms(2) mkdir_settled in auto)

lemma scan_settles:
  assumes "scan ns r = (None, r')" and "\<And>n. n \<notin> set ns \<Longrightarrow> settled (fs r) n"
  shows "settled (fs r') n"
  using assms
proof (induction ns arbitrary: r)
  case Nil
  then show ?case by simp
next
  case (Cons m ns)
  from Cons.prems(1) obtain r1 where step: "scan_entry m r = (None, r1)"
    and rest: "scan ns r1 = (None, r')"
    by (auto split: prod.splits option.splits)
  have "settled (fs r1) k" if "k \<notin> set ns" for k
  proof (cases "k = m")
    case True
    then show ?thesis using step_settles [OF step] by simp
  next
    case False
    with that have "k \<notin> set (m # ns)" by simp
    then have "settled (fs r) k" by (rule Cons.prems(2))
    then show ?thesis using step_keeps [OF step _ False] by simp
  qed
  with rest show ?case by (rule Cons.IH)
qed

lemma quiet_step:
  assumes "quiet (fs r) n"
  shows "\<exists>r'. scan_entry n r = (None, r') \<and> fs r' = fs r \<and> moved r' = moved r
     \<and> (out r' = out r \<or> (\<exists>t. out r' = out r @ [Skipped t n]))"
proof (cases "is_dir (map_of (entries (fs r)) n)")
  case True
  then show ?thesis by (simp add: scan_entry_def)
next
  case False
  show ?thesis
  proof (cases "extract_title n")
    case None
    with False show ?thesis by (simp add: scan_entry_def)
  next
    case (Some t)
    show ?thesis
    proof (cases "t = []")
      case True
      with False Some show ?thesis by (simp add: scan_entry_def)
    next
      case nonempty: False
      with assms False Some have ex: "target_exists (fs r) (place_of t) n"
        by (simp add: quiet_def)
      then have "mkdir (place_of t) (fs r) = Inr (fs r)"
        by (rule target_exists_mkdir)
      with False Some nonempty ex show ?thesis
        by (simp add: scan_entry_def)
    qed
  qed
qed

lemma scan_quiet:
  assumes "\<And>n. n \<in> set ns \<Longrightarrow> quiet (fs r) n"
  shows "\<exists>r'. scan ns r = (None, r') \<and> fs r' = fs r \<and> moved r' = moved r
     \<and> (\<exists>evs. out r' = out r @ evs \<and> list_all is_skip evs)"
  using assms
proof (induction ns arbitrary: r)
  case Nil
  then show ?case by simp
next
  case (Cons m ns)
  have "quiet (fs r) m" by (rule Cons.prems) simp
  from quiet_step [OF this] obtain r1 where step: "scan_entry m r = (None, r1)"
    and same: "fs r1 = fs r" "moved r1 = moved r"
    and o1: "out r1 = out r \<or> (\<exists>t. out r1 = out r @ [Skipped t m])"
    by blast
  from o1 obtain e1 where e1: "out r1 = out r @ e1" "list_all is_skip e1"
    by auto
  have "\<And>n. n \<in> set ns \<Longrightarrow> quiet (fs r1) n"
    using Cons.prems same by simp
  from Cons.IH [OF this] obtain r' evs where rest: "scan ns r1 = (None, r')"
    "fs r' = fs r1" "moved r' = moved r1" "out r' = out r1 @ evs" "list_all is_skip evs"
    by blast
  have "out r' = out r @ (e1 @ evs)" "list_all is_skip (e1 @ evs)"
    using e1 rest by simp_all
  with step rest same show ?case
    by (intro exI [of _ r']) auto
qed


lemma sync_folder_mtime_cases:
  "(\<exists>a m es a' m'. x = Dir a m es \<and> sync_folder_mtime x = Dir a' m' es)
   \<or> sync_folder_mtime x = x"
  by (cases x) (auto simp add: sync_folder_mtime_def Let_def List.map_filter_def split: list.splits)

lemma sync_entry_lookup:
  "map_of (entries (sync_entry k s)) n = map_of (entries s) n
   \<or> (\<exists>a m es a' m'. map_of (entries s) n = Some (Dir a m es)
        \<and> map_of (entries (sync_entry k s)) n = Some (Dir a' m' es))"
proof (cases "is_dir (map_of (entries s) k) \<and> n = k")
  case True
  then obtain x where x: "map_of (entries s) n = Some x"
    by (cases "map_of (entries s) n") auto
  with True have "map_of (entries (sync_entry k s)) n = Some (sync_folder_mtime x)"
    by (simp add: sync_entry_def map_of_map_entry)
  with x sync_folder_mtime_cases [of x] show ?thesis by auto
next
  case False
  then show ?thesis by (auto simp add: sync_entry_def map_of_map_entry)
qed

lemma sync_entry_rest:
  "parent (sync_entry k s) = parent s \<and> root_name (sync_entry k s) = root_name s"
  by (simp add: sync_entry_def)

lemma sync_entry_target:
  assumes "target_exists s d n"
  shows "target_exists (sync_entry k s) d n"
proof (cases d)
  case Here
  with assms show ?thesis
    using sync_entry_lookup [of k s n] by (auto simp add: target_exists_def)
next
  case Up
  with assms show ?thesis
    using sync_entry_lookup [of k s n] sync_entry_rest [of k s]
    by (auto simp add: target_exists_def split: option.splits)
next
  case (Sub t)
  with assms obtain a m es where "map_of (entries s) t = Some (Dir a m es)"
    and "map_of es n \<noteq> None"
    by (auto simp add: target_exists_def split: option.splits node.splits)
  then show ?thesis
    using sync_entry_lookup [of k s t] Sub by (auto simp add: target_exists_def)
qed

lemma sync_entry_settled:
  assumes "settled s n"
  shows "settled (sync_entry k s) n"
proof -
  have d: "is_dir (map_of (entries (sync_entry k s)) n)" if "is_dir (map_of (entries s) n)"
    using sync_entry_lookup [of k s n] that by auto
  have n: "map_of (entries (sync_entry k s)) n = None" if "map_of (entries s) n = None"
    using sync_entry_lookup [of k s n] that by auto
  from assms show ?thesis
    unfolding settled_def quiet_def using d n sync_entry_target [of s _ n k]
    by (auto split: option.splits)
qed

lemma fold_sync_settled:
  "settled s n \<Longrightarrow> settled (fold sync_entry ks s) n"
  by (induction ks arbitrary: s) (simp_all add: sync_entry_settled)

lemma sync_pass_settled: "settled s n \<Longrightarrow> settled (sync_pass s) n"
  by (simp add: sync_pass_def fold_sync_settled)

lemma listed_present: "n \<in> set (map fst es) \<Longrightarrow> map_of es n \<noteq> None"
  by (induction es) auto

section \<open>Files without a title\<close>

lemma no_title_step:
  assumes "extract_title name = None \<or> extract_title name = Some []"
  shows "scan_entry name r =
     (None, if is_dir (map_of (entries (fs r)) name) then r else r\<lparr>asked := asked r @ [name]\<rparr>)"
  using assms by (auto simp add: scan_entry_def)

text \<open>
  C3. \<^const>\<open>extract_title\<close> tries the episode pattern first and the movie pattern second,
  each from the start of the file name, and returns the sanitized capture of the first
  that matches, or nothing when neither matches. A match always carries the capture, and
  it covers the file name from position 0 up to a position of the file name.
  \<^verbatim>\<open>randomfile.txt\<close> matches neither. The organiser's step on a name without a title
  changes nothing in the file system, prints nothing and counts nothing; on a root that
  holds \<^verbatim>\<open>randomfile.txt\<close> alone a run leaves the root as it was, with no folder.
\<close>

theorem extract_title_order:
  "extract_title filename =
     (case re_match EPISODE filename of
        Some m \<Rightarrow> map_option sanitize (group_title m)
      | None \<Rightarrow>
          (case re_match MOVIE filename of
             Some m \<Rightarrow> map_option sanitize (group_title m)
           | None \<Rightarrow> None))
   \<and> (case re_match EPISODE filename of
         Some m \<Rightarrow> group_title m \<noteq> None \<and> aligned filename m
       | None \<Rightarrow> True)
   \<and> (case re_match MOVIE filename of
         Some m \<Rightarrow> group_title m \<noteq> None \<and> aligned filename m
       | None \<Rightarrow> True)
   \<and> extract_title ''randomfile.txt'' = None
   \<and> (extract_title name = None \<longrightarrow>
        scan_entry name r =
          (None, if is_dir (map_of (entries (fs r)) name) then r
                 else r\<lparr>asked := asked r @ [name]\<rparr>))
   \<and> organise lone_root =
        (None, \<lparr>fs = lone_root, out = [Summary 0], moved = 0, asked = [''randomfile.txt'']\<rparr>)"
proof -
  have e: "group_title m \<noteq> None \<and> aligned filename m"
    if "re_match EPISODE filename = Some m" for m
    using match_has_title [OF that sets_title_EPISODE] .
  have v: "group_title m \<noteq> None \<and> aligned filename m"
    if "re_match MOVIE filename = Some m" for m
    using match_has_title [OF that sets_title_MOVIE] .
  have a: "extract_title filename =
     (case re_match EPISODE filename of
        Some m \<Rightarrow> map_option sanitize (group_title m)
      | None \<Rightarrow>
          (case re_match MOVIE filename of
             Some m \<Rightarrow> map_option sanitize (group_title m)
           | None \<Rightarrow> None))"
    using e v by (auto simp add: extract_title_def PATTERNS_def split: option.splits)
  have b: "case re_match EPISODE filename of
         Some m \<Rightarrow> group_title m \<noteq> None \<and> aligned filename m
       | None \<Rightarrow> True"
    using e by (simp split: option.splits)
  have c: "case re_match MOVIE filename of
         Some m \<Rightarrow> group_title m \<noteq> None \<and> aligned filename m
       | None \<Rightarrow> True"
    using v by (simp split: option.splits)
  have d: "extract_title ''randomfile.txt'' = None"
    by code_simp
  have f: "organise lone_root =
        (None, \<lparr>fs = lone_root, out = [Summary 0], moved = 0, asked = [''randomfile.txt'']\<rparr>)"
    by code_simp
  from a b c d f no_title_step [of name r] show ?thesis
    by blast
qed

theorem extract_title_order_witness:
  "map_option group_title (re_match EPISODE ''[G] X - 01 [AB].mkv'') = Some (Some ''X'')
   \<and> extract_title ''[G] X - 01 [AB].mkv'' = Some ''X''
   \<and> re_match EPISODE ''[G] Up / Down (2001) x.mkv'' = None
   \<and> map_option group_title (re_match MOVIE ''[G] Up / Down (2001) x.mkv'') = Some (Some ''Up / Down'')
   \<and> extract_title ''[G] Up / Down (2001) x.mkv'' = Some ''Up _ Down''
   \<and> extract_title ''randomfile.txt'' = None
   \<and> scan_entry ''randomfile.txt'' \<lparr>fs = lone_root, out = [], moved = 0, asked = []\<rparr> =
       (None, \<lparr>fs = lone_root, out = [], moved = 0, asked = [''randomfile.txt'']\<rparr>)"
proof -
  have a: "map_option group_title (re_match EPISODE ''[G] X - 01 [AB].mkv'') = Some (Some ''X'')"
    by code_simp
  have b: "re_match EPISODE ''[G] Up / Down (2001) x.mkv'' = None"
    by code_simp
  have c: "map_option group_title (re_match MOVIE ''[G] Up / Down (2001) x.mkv'')
      = Some (Some ''Up / Down'')"
    by code_simp
  have s: "sanitize ''X'' = ''X''" "sanitize ''Up / Down'' = ''Up _ Down''"
    by code_simp+
  have d: "\<not> is_dir (map_of (entries lone_root) ''randomfile.txt'')"
    by code_simp
  note t = extract_title_order [of _ "''randomfile.txt''"
      "\<lparr>fs = lone_root, out = [], moved = 0, asked = []\<rparr>"]
  from t [of "''[G] X - 01 [AB].mkv''"] a s
  have x: "extract_title ''[G] X - 01 [AB].mkv'' = Some ''X''"
    by (auto split: option.splits)
  from t [of "''[G] Up / Down (2001) x.mkv''"] b c s
  have y: "extract_title ''[G] Up / Down (2001) x.mkv'' = Some ''Up _ Down''"
    by (auto split: option.splits)
  from t [of "[]"] d
  have z: "extract_title ''randomfile.txt'' = None
    \<and> scan_entry ''randomfile.txt'' \<lparr>fs = lone_root, out = [], moved = 0, asked = []\<rparr> =
       (None, \<lparr>fs = lone_root, out = [], moved = 0, asked = [''randomfile.txt'']\<rparr>)"
    by simp
  from a b c x y z show ?thesis by blast
qed

lemma mkdir_unnamed:
  assumes "mkdir (place_of t) s = Inr s1" and "t \<noteq> []" and "map_of (entries s) [] = None"
  shows "map_of (entries s1) [] = None"
  using mkdir_lookup [OF assms(1), of "[]"] assms(2,3)
  by (auto simp add: place_of_def split: if_splits)

lemma step_unnamed:
  assumes "scan_entry m r = (e, r')" and "map_of (entries (fs r)) [] = None"
  shows "map_of (entries (fs r')) [] = None"
  using assms(1)
proof (cases rule: scan_entry_cases)
  case (skipped t s1)
  then show ?thesis using mkdir_unnamed [OF skipped(4) skipped(3) assms(2)] by simp
next
  case (failed t s1 x)
  then show ?thesis using mkdir_unnamed [OF failed(4) failed(3) assms(2)] by simp
next
  case (moved t s1 s2)
  then show ?thesis
    using move_absent [OF moved(6) mkdir_unnamed [OF moved(4) moved(3) assms(2)]] by simp
qed (use assms(2) in auto)

lemma scan_unnamed:
  assumes "scan ns r = (e, r')" and "map_of (entries (fs r)) [] = None"
  shows "map_of (entries (fs r')) [] = None"
  using assms
proof (induction ns arbitrary: r)
  case Nil
  then show ?case by simp
next
  case (Cons m ns)
  obtain e1 r1 where step: "scan_entry m r = (e1, r1)" by (cases "scan_entry m r")
  have n1: "map_of (entries (fs r1)) [] = None"
    using step_unnamed [OF step Cons.prems(2)] .
  show ?case
  proof (cases e1)
    case None
    with step Cons.prems(1) have "scan ns r1 = (e, r')" by simp
    then show ?thesis using n1 by (rule Cons.IH)
  next
    case (Some x)
    with step Cons.prems(1) have "r' = r1" by simp
    with n1 show ?thesis by simp
  qed
qed

lemma fold_sync_absent:
  "map_of (entries s) n = None \<Longrightarrow> map_of (entries (fold sync_entry ks s)) n = None"
proof (induction ks arbitrary: s)
  case Nil
  then show ?case by simp
next
  case (Cons k ks)
  from Cons.prems have "map_of (entries (sync_entry k s)) n = None"
    using sync_entry_lookup [of k s n] by auto
  then show ?case using Cons.IH by simp
qed

lemma organise_names:
  assumes "organise root = (e, r')" and "[] \<notin> fst ` set (entries root)"
  shows "[] \<notin> fst ` set (entries (fs r'))"
proof -
  let ?r0 = "\<lparr>fs = root, out = [], moved = 0, asked = []\<rparr>"
  obtain e1 r1 where sc: "scan (map fst (entries root)) ?r0 = (e1, r1)"
    by (cases "scan (map fst (entries root)) ?r0")
  from assms(2) have "map_of (entries (fs ?r0)) [] = None"
    by (simp add: map_of_eq_None_iff)
  with sc have n1: "map_of (entries (fs r1)) [] = None"
    by (rule scan_unnamed)
  have "map_of (entries (fs r')) [] = None"
  proof (cases e1)
    case None
    with sc assms(1) have "fs r' = sync_pass (fs r1)"
      by (auto simp add: organise_def)
    with n1 show ?thesis by (simp add: sync_pass_def fold_sync_absent)
  next
    case (Some x)
    with sc assms(1) have "r' = r1" by (auto simp add: organise_def)
    with n1 show ?thesis by simp
  qed
  then show ?thesis by (simp add: map_of_eq_None_iff)
qed

text \<open>
  C10. A pattern can match with a capture that is empty (\<^verbatim>\<open>[Group] - 01 [AB].mkv\<close>) or
  only whitespace (\<^verbatim>\<open>[G]  (2000).mkv\<close>, two spaces); the title is then the empty string.
  The organiser's step on a name whose title is empty is the step on a name without a
  title: nothing changes in the file system, nothing is printed or counted. No run,
  whether it returns or raises, gives the root an entry with an empty name.
\<close>

theorem empty_title_is_no_match:
  "map_option group_title (re_match EPISODE ''[Group] - 01 [AB].mkv'') = Some (Some [])
   \<and> extract_title ''[Group] - 01 [AB].mkv'' = Some []
   \<and> map_option group_title (re_match MOVIE ''[G]  (2000).mkv'') = Some (Some '' '')
   \<and> extract_title ''[G]  (2000).mkv'' = Some []
   \<and> (extract_title name = Some [] \<longrightarrow>
        scan_entry name r =
          (None, if is_dir (map_of (entries (fs r)) name) then r
                 else r\<lparr>asked := asked r @ [name]\<rparr>))
   \<and> (organise root = (e, r') \<and> [] \<notin> fst ` set (entries root) \<longrightarrow>
        [] \<notin> fst ` set (entries (fs r')))"
proof -
  have a: "map_option group_title (re_match EPISODE ''[Group] - 01 [AB].mkv'') = Some (Some [])"
    by code_simp
  have b: "extract_title ''[Group] - 01 [AB].mkv'' = Some []"
    by code_simp
  have c: "map_option group_title (re_match MOVIE ''[G]  (2000).mkv'') = Some (Some '' '')"
    by code_simp
  have d: "extract_title ''[G]  (2000).mkv'' = Some []"
    by code_simp
  from a b c d no_title_step [of name r] organise_names [of root e r'] show ?thesis
    by blast
qed

theorem empty_title_is_no_match_witness:
  "extract_title ''[Group] - 01 [AB].mkv'' = Some []
   \<and> scan_entry ''[Group] - 01 [AB].mkv'' \<lparr>fs = blank_root, out = [], moved = 0, asked = []\<rparr> =
       (None, \<lparr>fs = blank_root, out = [], moved = 0, asked = [''[Group] - 01 [AB].mkv'']\<rparr>)
   \<and> organise blank_root =
       (None, \<lparr>fs = blank_root, out = [Summary 0], moved = 0,
               asked = [''[Group] - 01 [AB].mkv'', ''[G]  (2000).mkv'']\<rparr>)
   \<and> [] \<notin> fst ` set (entries blank_root)
   \<and> [] \<notin> fst ` set (entries (fs (snd (organise blank_root))))"
proof -
  have o: "organise blank_root =
       (None, \<lparr>fs = blank_root, out = [Summary 0], moved = 0,
               asked = [''[Group] - 01 [AB].mkv'', ''[G]  (2000).mkv'']\<rparr>)"
    by code_simp
  have n: "[] \<notin> fst ` set (entries blank_root)"
    by (simp add: blank_root_def)
  have d: "\<not> is_dir (map_of (entries blank_root) ''[Group] - 01 [AB].mkv'')"
    by code_simp
  note t = empty_title_is_no_match [of "''[Group] - 01 [AB].mkv''"
      "\<lparr>fs = blank_root, out = [], moved = 0, asked = []\<rparr>" blank_root None
      "snd (organise blank_root)"]
  from t d have s: "extract_title ''[Group] - 01 [AB].mkv'' = Some []
   \<and> scan_entry ''[Group] - 01 [AB].mkv'' \<lparr>fs = blank_root, out = [], moved = 0, asked = []\<rparr> =
       (None, \<lparr>fs = blank_root, out = [], moved = 0, asked = [''[Group] - 01 [AB].mkv'']\<rparr>)"
    by simp
  from t o n have "[] \<notin> fst ` set (entries (fs (snd (organise blank_root))))"
    by simp
  with s o n show ?thesis by blast
qed

section \<open>The entry point and the summary\<close>

lemma step_out:
  assumes "scan_entry m r = (e, r')"
  shows "\<exists>evs. out r' = out r @ evs \<and> list_all (\<lambda>ev. \<not> is_summary ev) evs
     \<and> moved r' = moved r + count_moved evs"
  using assms by (cases rule: scan_entry_cases) (auto simp add: count_moved_def)

lemma scan_out:
  assumes "scan ns r = (e, r')"
  shows "\<exists>evs. out r' = out r @ evs \<and> list_all (\<lambda>ev. \<not> is_summary ev) evs
     \<and> moved r' = moved r + count_moved evs"
  using assms
proof (induction ns arbitrary: r)
  case Nil
  then show ?case by (simp add: count_moved_def)
next
  case (Cons m ns)
  obtain e1 r1 where step: "scan_entry m r = (e1, r1)" by (cases "scan_entry m r")
  from step_out [OF step] obtain ev1 where o1: "out r1 = out r @ ev1"
    "list_all (\<lambda>ev. \<not> is_summary ev) ev1" "moved r1 = moved r + count_moved ev1"
    by blast
  show ?case
  proof (cases e1)
    case None
    with step Cons.prems have "scan ns r1 = (e, r')" by simp
    from Cons.IH [OF this] obtain ev2 where o2: "out r' = out r1 @ ev2"
      "list_all (\<lambda>ev. \<not> is_summary ev) ev2" "moved r' = moved r1 + count_moved ev2"
      by blast
    from o1 o2 have "out r' = out r @ (ev1 @ ev2)"
      "list_all (\<lambda>ev. \<not> is_summary ev) (ev1 @ ev2)"
      "moved r' = moved r + count_moved (ev1 @ ev2)"
      by (simp_all add: count_moved_def)
    then show ?thesis by blast
  next
    case (Some x)
    with step Cons.prems have "r' = r1" by simp
    with o1 show ?thesis by blast
  qed
qed

lemma organise_out:
  assumes "organise root = (e, r)"
  shows "\<exists>evs. list_all (\<lambda>ev. \<not> is_summary ev) evs \<and>
     out r = (case e of None \<Rightarrow> evs @ [Summary (count_moved evs)] | Some x \<Rightarrow> evs)"
proof -
  let ?r0 = "\<lparr>fs = root, out = [], moved = 0, asked = []\<rparr>"
  obtain e1 r1 where sc: "scan (map fst (entries root)) ?r0 = (e1, r1)"
    by (cases "scan (map fst (entries root)) ?r0")
  from scan_out [OF sc] obtain evs where o: "out r1 = evs"
    "list_all (\<lambda>ev. \<not> is_summary ev) evs" "moved r1 = count_moved evs"
    by auto
  show ?thesis
  proof (cases e1)
    case None
    with sc assms have "e = None" "out r = out r1 @ [Summary (moved r1)]"
      by (auto simp add: organise_def)
    with o show ?thesis by auto
  next
    case (Some x)
    with sc assms have "e = Some x" "r = r1" by (auto simp add: organise_def)
    with o show ?thesis by auto
  qed
qed

text \<open>
  C8, as amended. On a path that does not exist or is not a directory the program exits
  with status 1 and the error message, printing nothing else and leaving the path as it
  was. On a directory it runs the organiser: when the run returns, it exits with status
  0 and what it printed ends with one summary line, the only one, whose count is the
  number of move notices before it; when the run raises, it exits with status 1 and the
  traceback and has printed no summary line.
\<close>

theorem main_exit:
  "main Missing = \<lparr>status = 1, stdout = [], stderr = Some ErrorNotADirectory, after = Missing\<rparr>
   \<and> main (NotADirectory x) =
       \<lparr>status = 1, stdout = [], stderr = Some ErrorNotADirectory, after = NotADirectory x\<rparr>
   \<and> (fst (organise root) = None \<longrightarrow>
        status (main (Directory root)) = 0 \<and> stderr (main (Directory root)) = None
        \<and> (\<exists>evs. list_all (\<lambda>ev. \<not> is_summary ev) evs
              \<and> stdout (main (Directory root)) = evs @ [Summary (count_moved evs)]))
   \<and> (fst (organise root) = Some e \<longrightarrow>
        status (main (Directory root)) = 1
        \<and> stderr (main (Directory root)) = Some (Traceback e)
        \<and> list_all (\<lambda>ev. \<not> is_summary ev) (stdout (main (Directory root))))"
proof -
  obtain e1 r where o: "organise root = (e1, r)" by (cases "organise root")
  from organise_out [OF o] obtain evs where evs: "list_all (\<lambda>ev. \<not> is_summary ev) evs"
    "out r = (case e1 of None \<Rightarrow> evs @ [Summary (count_moved evs)] | Some x \<Rightarrow> evs)"
    by blast
  have a: "main Missing =
      \<lparr>status = 1, stdout = [], stderr = Some ErrorNotADirectory, after = Missing\<rparr>"
    by (simp add: main_def)
  have b: "main (NotADirectory x) =
      \<lparr>status = 1, stdout = [], stderr = Some ErrorNotADirectory, after = NotADirectory x\<rparr>"
    by (simp add: main_def)
  have c: "status (main (Directory root)) = 0 \<and> stderr (main (Directory root)) = None
        \<and> (\<exists>evs. list_all (\<lambda>ev. \<not> is_summary ev) evs
              \<and> stdout (main (Directory root)) = evs @ [Summary (count_moved evs)])"
    if "fst (organise root) = None"
    using that o evs by (auto simp add: main_def)
  have d: "status (main (Directory root)) = 1
        \<and> stderr (main (Directory root)) = Some (Traceback e)
        \<and> list_all (\<lambda>ev. \<not> is_summary ev) (stdout (main (Directory root)))"
    if "fst (organise root) = Some e"
    using that o evs by (auto simp add: main_def)
  from a b c d show ?thesis by blast
qed

theorem main_exit_witness:
  "fst (organise sample_root) = None
   \<and> status (main (Directory sample_root)) = 0 \<and> stderr (main (Directory sample_root)) = None
   \<and> (\<exists>evs. list_all (\<lambda>ev. \<not> is_summary ev) evs
         \<and> stdout (main (Directory sample_root)) = evs @ [Summary (count_moved evs)])
   \<and> fst (organise clash_root) = Some FileExistsError
   \<and> status (main (Directory clash_root)) = 1
   \<and> stderr (main (Directory clash_root)) = Some (Traceback FileExistsError)
   \<and> summary_text 3 = ''Done. 3 file(s) moved; folder timestamps updated.''"
proof -
  have a: "fst (organise sample_root) = None" by code_simp
  have b: "fst (organise clash_root) = Some FileExistsError" by code_simp
  have c: "summary_text 3 = ''Done. 3 file(s) moved; folder timestamps updated.''" by code_simp
  from main_exit [of Special sample_root FileExistsError] a
  have d: "status (main (Directory sample_root)) = 0 \<and> stderr (main (Directory sample_root)) = None
   \<and> (\<exists>evs. list_all (\<lambda>ev. \<not> is_summary ev) evs
         \<and> stdout (main (Directory sample_root)) = evs @ [Summary (count_moved evs)])"
    by blast
  from main_exit [of Special clash_root FileExistsError] b
  have e: "status (main (Directory clash_root)) = 1
   \<and> stderr (main (Directory clash_root)) = Some (Traceback FileExistsError)"
    by blast
  from a b c d e show ?thesis by blast
qed

text \<open>
  C8 as stated fails on a directory where a regular file bears the title of another
  file: the run raises \<^verbatim>\<open>FileExistsError\<close>, the status is 1 and no summary is printed.
\<close>

theorem main_exit_counterexample:
  "main (Directory clash_root) =
     \<lparr>status = 1, stdout = [], stderr = Some (Traceback FileExistsError),
      after = Directory clash_root\<rparr>"
  by code_simp

section \<open>What the title extractor is called with\<close>

lemma mkdir_sub_dir:
  assumes "mkdir (Sub t) s = Inr s1" and "map_of (entries s) t = Some x"
  shows "is_dir (Some x)"
  using assms by (auto simp add: mkdir_def split: if_splits)

lemma step_other_file:
  assumes "scan_entry m r = (e, r')" and "n \<noteq> m"
    and "map_of (entries (fs r)) n = Some x" and "\<not> is_dir (Some x)"
  shows "map_of (entries (fs r')) n = Some x"
  using assms(1)
proof (cases rule: scan_entry_cases)
  case (moved t s1 s2)
  have s1: "map_of (entries s1) n = Some x"
    using mkdir_present [OF moved(4) assms(3)] .
  have "place_of t \<noteq> Sub n"
    using mkdir_sub_dir [of n "fs r" s1 x] moved(4) assms(3,4) by auto
  then show ?thesis
    using move_lookup_other [OF moved(6) assms(2)] s1 moved(8) by auto
qed (use assms(3) mkdir_present in auto)








section \<open>Collisions\<close>

lemma collision_step:
  assumes "\<not> is_dir (map_of (entries (fs r)) n)" and "extract_title n = Some t" and "t \<noteq> []"
    and "target_exists (fs r) (place_of t) n"
  shows "scan_entry n r = (None, r\<lparr>asked := asked r @ [n], out := out r @ [Skipped t n]\<rparr>)"
  using assms target_exists_mkdir [OF assms(4)] by (simp add: scan_entry_def)

lemma step_target:
  assumes "scan_entry m r = (e, r')" and "n \<noteq> m" and "target_exists (fs r) d n"
  shows "target_exists (fs r') d n"
  using assms(1)
proof (cases rule: scan_entry_cases)
  case (moved t s1 s2)
  have "target_exists s1 d n"
    using mkdir_target [OF moved(4) assms(3)] .
  then show ?thesis
    using move_target [OF moved(6) _ assms(2) moved_node_not_dir [OF moved(1) moved(4) moved(6)]]
      moved(8) by simp
qed (use assms(3) mkdir_target in auto)

lemma step_collision:
  assumes "scan_entry m r = (e, r')"
    and "map_of (entries (fs r)) n = Some x" and "\<not> is_dir (Some x)"
    and "extract_title n = Some t" and "t \<noteq> []" and "target_exists (fs r) (place_of t) n"
  shows "map_of (entries (fs r')) n = Some x \<and> target_exists (fs r') (place_of t) n"
proof (cases "n = m")
  case True
  from assms(2,3) have "\<not> is_dir (map_of (entries (fs r)) n)" by simp
  from collision_step [OF this assms(4,5,6)] True assms(1) have "fs r' = fs r" by auto
  with assms(2,6) show ?thesis by simp
next
  case False
  then show ?thesis
    using step_other_file [OF assms(1) False assms(2,3)] step_target [OF assms(1) False assms(6)]
    by simp
qed

lemma scan_collision:
  assumes "scan ns r = (e, r')"
    and "map_of (entries (fs r)) n = Some x" and "\<not> is_dir (Some x)"
    and "extract_title n = Some t" and "t \<noteq> []" and "target_exists (fs r) (place_of t) n"
  shows "map_of (entries (fs r')) n = Some x \<and> target_exists (fs r') (place_of t) n"
  using assms(1,2,6)
proof (induction ns arbitrary: r)
  case Nil
  then show ?case by simp
next
  case (Cons m ns)
  obtain e1 r1 where step: "scan_entry m r = (e1, r1)" by (cases "scan_entry m r")
  have k: "map_of (entries (fs r1)) n = Some x \<and> target_exists (fs r1) (place_of t) n"
    using step_collision [OF step Cons.prems(2) assms(3,4,5) Cons.prems(3)] .
  show ?case
  proof (cases e1)
    case None
    with step Cons.prems(1) have "scan ns r1 = (e, r')" by simp
    then show ?thesis using k Cons.IH by blast
  next
    case (Some x)
    with step Cons.prems(1) have "r' = r1" by simp
    with k show ?thesis by simp
  qed
qed

lemma scan_collision_noted:
  assumes "scan ns r = (None, r')" and "n \<in> set ns"
    and "map_of (entries (fs r)) n = Some x" and "\<not> is_dir (Some x)"
    and "extract_title n = Some t" and "t \<noteq> []" and "target_exists (fs r) (place_of t) n"
  shows "Skipped t n \<in> set (out r')"
  using assms(1,2,3,7)
proof (induction ns arbitrary: r)
  case Nil
  then show ?case by simp
next
  case (Cons m ns)
  from Cons.prems(1) obtain r1 where step: "scan_entry m r = (None, r1)"
    and rest: "scan ns r1 = (None, r')"
    by (auto split: prod.splits option.splits)
  show ?case
  proof (cases "n = m")
    case True
    from Cons.prems(3) assms(4) have "\<not> is_dir (map_of (entries (fs r)) n)" by simp
    from collision_step [OF this assms(5,6) Cons.prems(4)] True step
    have "Skipped t n \<in> set (out r1)" by auto
    then show ?thesis using scan_out [OF rest] by auto
  next
    case False
    with Cons.prems(2) have "n \<in> set ns" by simp
    moreover have "map_of (entries (fs r1)) n = Some x \<and> target_exists (fs r1) (place_of t) n"
      using step_collision [OF step Cons.prems(3) assms(4,5,6) Cons.prems(4)] .
    ultimately show ?thesis using Cons.IH [OF rest] by blast
  qed
qed

lemma step_in_folder:
  assumes "scan_entry m r = (e, r')" and "in_folder (fs r) t n y"
  shows "in_folder (fs r') t n y"
proof -
  from assms(2) obtain a mt es where t: "map_of (entries (fs r)) t = Some (Dir a mt es)"
    and y: "map_of es n = Some y"
    by (auto simp add: in_folder_def)
  from assms(1) show ?thesis
  proof (cases rule: scan_entry_cases)
    case (moved u s1 s2)
    have t1: "map_of (entries s1) t = Some (Dir a mt es)"
      using mkdir_present [OF moved(4) t] .
    have "\<not> is_dir (map_of (entries s1) m)"
      using moved_node_not_dir [OF moved(1) moved(4) moved(6)] .
    with t1 have "t \<noteq> m" by auto
    from move_lookup_other [OF moved(6) this] t1
    have "map_of (entries s2) t = Some (Dir a mt es)
      \<or> (\<exists>x. map_of (entries s2) t = Some (Dir a mt (es @ [(m, x)])))"
      by auto
    with y moved(8) show ?thesis
      by (auto simp add: in_folder_def map_add_def)
  qed (use t y mkdir_present in \<open>auto simp add: in_folder_def\<close>)
qed

lemma scan_in_folder:
  assumes "scan ns r = (e, r')" and "in_folder (fs r) t n y"
  shows "in_folder (fs r') t n y"
  using assms
proof (induction ns arbitrary: r)
  case Nil
  then show ?case by simp
next
  case (Cons m ns)
  obtain e1 r1 where step: "scan_entry m r = (e1, r1)" by (cases "scan_entry m r")
  have k: "in_folder (fs r1) t n y"
    using step_in_folder [OF step Cons.prems(2)] .
  show ?case
  proof (cases e1)
    case None
    with step Cons.prems(1) have "scan ns r1 = (e, r')" by simp
    then show ?thesis using k by (rule Cons.IH)
  next
    case (Some x)
    with step Cons.prems(1) have "r' = r1" by simp
    with k show ?thesis by simp
  qed
qed

lemma sync_entry_file:
  assumes "map_of (entries s) n = Some x" and "\<not> is_dir (Some x)"
  shows "map_of (entries (sync_entry k s)) n = Some x"
  using sync_entry_lookup [of k s n] assms by auto

lemma sync_entry_in_folder:
  assumes "in_folder s t n y"
  shows "in_folder (sync_entry k s) t n y"
  using sync_entry_lookup [of k s t] assms by (auto simp add: in_folder_def)

lemma sync_pass_keeps:
  "(map_of (entries s) n = Some x \<and> \<not> is_dir (Some x)
      \<longrightarrow> map_of (entries (sync_pass s)) n = Some x)
   \<and> (target_exists s d n \<longrightarrow> target_exists (sync_pass s) d n)
   \<and> (in_folder s t n y \<longrightarrow> in_folder (sync_pass s) t n y)"
proof -
  have "(map_of (entries s) n = Some x \<and> \<not> is_dir (Some x)
      \<longrightarrow> map_of (entries (fold sync_entry ks s)) n = Some x)
   \<and> (target_exists s d n \<longrightarrow> target_exists (fold sync_entry ks s) d n)
   \<and> (in_folder s t n y \<longrightarrow> in_folder (fold sync_entry ks s) t n y)" for ks
  proof (induction ks arbitrary: s)
    case Nil
    then show ?case by simp
  next
    case (Cons k ks)
    show ?case
      using Cons.IH [of "sync_entry k s"] sync_entry_file [of s n x k]
        sync_entry_target [of s d n k] sync_entry_in_folder [of s t n y k]
      by auto
  qed
  then show ?thesis by (simp add: sync_pass_def)
qed

text \<open>
  C1. When the organiser comes to a file whose title is not empty and whose target
  exists, its step changes nothing in the file system, counts nothing and prints the
  skip notice. For a file of the root whose target exists when a run starts: when the
  run ends, by returning or by raising, the file is still in the root with the contents
  and mtime it had, the target still exists, the node that its title's folder held
  under its name is the node it holds (same contents, same mtime), and a run that
  returns has printed the skip notice.
\<close>

theorem collision_is_skipped:
  "(\<not> is_dir (map_of (entries (fs r)) name) \<and> extract_title name = Some title \<and> title \<noteq> []
      \<and> target_exists (fs r) (place_of title) name \<longrightarrow>
      scan_entry name r =
        (None, r\<lparr>asked := asked r @ [name], out := out r @ [Skipped title name]\<rparr>))
   \<and> (map_of (entries root) name = Some x \<and> \<not> is_dir (Some x)
      \<and> extract_title name = Some title \<and> title \<noteq> []
      \<and> target_exists root (place_of title) name \<and> organise root = (e, r') \<longrightarrow>
      map_of (entries (fs r')) name = Some x
      \<and> target_exists (fs r') (place_of title) name
      \<and> (in_folder root title name y \<longrightarrow> in_folder (fs r') title name y)
      \<and> (e = None \<longrightarrow> Skipped title name \<in> set (out r')))"
proof -
  let ?r0 = "\<lparr>fs = root, out = [], moved = 0, asked = []\<rparr>"
  have run: "map_of (entries (fs r')) name = Some x
      \<and> target_exists (fs r') (place_of title) name
      \<and> (in_folder root title name y \<longrightarrow> in_folder (fs r') title name y)
      \<and> (e = None \<longrightarrow> Skipped title name \<in> set (out r'))"
    if x: "map_of (entries root) name = Some x" and nd: "\<not> is_dir (Some x)"
      and t: "extract_title name = Some title" "title \<noteq> []"
      and te: "target_exists root (place_of title) name" and o: "organise root = (e, r')"
  proof -
    obtain e1 r1 where sc: "scan (map fst (entries root)) ?r0 = (e1, r1)"
      by (cases "scan (map fst (entries root)) ?r0")
    from x have x0: "map_of (entries (fs ?r0)) name = Some x" by simp
    from te have te0: "target_exists (fs ?r0) (place_of title) name" by simp
    have k1: "map_of (entries (fs r1)) name = Some x
        \<and> target_exists (fs r1) (place_of title) name"
      using scan_collision [OF sc x0 nd t te0] .
    have f1: "in_folder (fs r1) title name y" if "in_folder root title name y"
      using scan_in_folder [OF sc] that by simp
    show ?thesis
    proof (cases e1)
      case None
      with sc o have r': "e = None" "fs r' = sync_pass (fs r1)"
        "out r' = out r1 @ [Summary (moved r1)]"
        by (auto simp add: organise_def)
      from x have "name \<in> set (map fst (entries root))"
        by (metis map_of_eq_None_iff option.distinct(1) set_map)
      with sc None have "Skipped title name \<in> set (out r1)"
        using scan_collision_noted [of "map fst (entries root)" ?r0 r1 name x title] x0 nd t te0
        by simp
      with r' k1 f1 nd show ?thesis
        using sync_pass_keeps [of "fs r1" name x "place_of title" title y] by auto
    next
      case (Some a)
      with sc o have "e = Some a" "r' = r1" by (auto simp add: organise_def)
      with k1 f1 show ?thesis by simp
    qed
  qed
  have step: "scan_entry name r =
        (None, r\<lparr>asked := asked r @ [name], out := out r @ [Skipped title name]\<rparr>)"
    if "\<not> is_dir (map_of (entries (fs r)) name)" "extract_title name = Some title"
      "title \<noteq> []" "target_exists (fs r) (place_of title) name"
    using that by (rule collision_step)
  from step run show ?thesis by blast
qed

theorem collision_is_skipped_witness:
  "map_of (entries sample_root) ''[G] Z - 02 [CD].mkv'' = Some (File ''new'' 5)
   \<and> extract_title ''[G] Z - 02 [CD].mkv'' = Some ''Z''
   \<and> in_folder sample_root ''Z'' ''[G] Z - 02 [CD].mkv'' (File ''old'' 4)
   \<and> target_exists sample_root (place_of ''Z'') ''[G] Z - 02 [CD].mkv''
   \<and> scan_entry ''[G] Z - 02 [CD].mkv'' \<lparr>fs = sample_root, out = [], moved = 0, asked = []\<rparr> =
       (None, \<lparr>fs = sample_root, out = [Skipped ''Z'' ''[G] Z - 02 [CD].mkv''], moved = 0,
               asked = [''[G] Z - 02 [CD].mkv'']\<rparr>)
   \<and> fst (organise sample_root) = None
   \<and> map_of (entries (fs (snd (organise sample_root)))) ''[G] Z - 02 [CD].mkv''
       = Some (File ''new'' 5)
   \<and> in_folder (fs (snd (organise sample_root))) ''Z'' ''[G] Z - 02 [CD].mkv'' (File ''old'' 4)
   \<and> Skipped ''Z'' ''[G] Z - 02 [CD].mkv'' \<in> set (out (snd (organise sample_root)))"
proof -
  have a: "map_of (entries sample_root) ''[G] Z - 02 [CD].mkv'' = Some (File ''new'' 5)"
    by code_simp
  have b: "extract_title ''[G] Z - 02 [CD].mkv'' = Some ''Z''"
    by code_simp
  have c: "in_folder sample_root ''Z'' ''[G] Z - 02 [CD].mkv'' (File ''old'' 4)"
    by (simp add: in_folder_def sample_root_def)
  have d: "target_exists sample_root (place_of ''Z'') ''[G] Z - 02 [CD].mkv''"
    by code_simp
  have e: "fst (organise sample_root) = None"
    by code_simp
  then have o: "organise sample_root = (None, snd (organise sample_root))"
    by (metis prod.collapse)
  note t = collision_is_skipped [of "\<lparr>fs = sample_root, out = [], moved = 0, asked = []\<rparr>"
      "''[G] Z - 02 [CD].mkv''" "''Z''" sample_root "File ''new'' 5" None
      "snd (organise sample_root)" "File ''old'' 4"]
  from t a b d have s: "scan_entry ''[G] Z - 02 [CD].mkv''
       \<lparr>fs = sample_root, out = [], moved = 0, asked = []\<rparr> =
       (None, \<lparr>fs = sample_root, out = [Skipped ''Z'' ''[G] Z - 02 [CD].mkv''], moved = 0,
               asked = [''[G] Z - 02 [CD].mkv'']\<rparr>)"
    by simp
  from t a b c d o have f: "map_of (entries (fs (snd (organise sample_root)))) ''[G] Z - 02 [CD].mkv''
       = Some (File ''new'' 5)
   \<and> in_folder (fs (snd (organise sample_root))) ''Z'' ''[G] Z - 02 [CD].mkv'' (File ''old'' 4)
   \<and> Skipped ''Z'' ''[G] Z - 02 [CD].mkv'' \<in> set (out (snd (organise sample_root)))"
    by simp
  from a b c d e s f show ?thesis by blast
qed

section \<open>Running the organiser twice\<close>

text \<open>
  C2, as amended. When a first run on a root returns without raising, a second run on
  the file system it leaves returns without raising too, moves no file (its first loop
  leaves the file system as it found it, and it prints skip notices only before the
  summary) and reports the count 0.
\<close>

theorem second_run_moves_nothing:
  assumes "organise root = (None, r1)"
  shows "\<exists>evs asked'. list_all is_skip evs \<and>
     organise (fs r1) =
       (None, \<lparr>fs = sync_pass (fs r1), out = evs @ [Summary 0], moved = 0, asked = asked'\<rparr>)"
proof -
  let ?r0 = "\<lparr>fs = root, out = [], moved = 0, asked = []\<rparr>"
  from assms obtain r where sc: "scan (map fst (entries root)) ?r0 = (None, r)"
    and r1: "fs r1 = sync_pass (fs r)"
    by (auto simp add: organise_def split: prod.splits option.splits)
  have "settled (fs ?r0) n" if "n \<notin> set (map fst (entries root))" for n
  proof -
    from that have "map_of (entries root) n = None"
      by (simp add: map_of_eq_None_iff)
    then show ?thesis by (simp add: settled_def)
  qed
  with sc have "settled (fs r) n" for n
    by (rule scan_settles)
  then have all: "settled (fs r1) n" for n
    using r1 sync_pass_settled by simp
  let ?q0 = "\<lparr>fs = fs r1, out = [], moved = 0, asked = []\<rparr>"
  have "quiet (fs ?q0) n" if "n \<in> set (map fst (entries (fs r1)))" for n
    using listed_present [OF that] all [of n] by (auto simp add: settled_def)
  from scan_quiet [of "map fst (entries (fs r1))" ?q0, OF this]
  obtain r' evs where "scan (map fst (entries (fs r1))) ?q0 = (None, r')"
    and "fs r' = fs r1" "moved r' = 0" "out r' = evs" "list_all is_skip evs"
    by auto
  then show ?thesis
    by (auto simp add: organise_def intro!: exI [of _ evs] exI [of _ "asked r'"])
qed


theorem second_run_moves_nothing_witness:
  "fst (organise sample_root) = None
   \<and> (\<exists>evs asked'. list_all is_skip evs \<and>
        organise (fs (snd (organise sample_root))) =
          (None, \<lparr>fs = sync_pass (fs (snd (organise sample_root))), out = evs @ [Summary 0],
                  moved = 0, asked = asked'\<rparr>))"
proof -
  have h: "fst (organise sample_root) = None"
    by code_simp
  then have "organise sample_root = (None, snd (organise sample_root))"
    by (metis prod.collapse)
  from second_run_moves_nothing [OF this] h show ?thesis
    by blast
qed

text \<open>
  C2 as stated fails on a root where a regular file bears the title of another file:
  \<^verbatim>\<open>mkdir\<close> raises \<^verbatim>\<open>FileExistsError\<close> in the first run and again in the second, which
  prints no summary at all.
\<close>

theorem second_run_counterexample:
  "organise clash_root =
     (Some FileExistsError,
      \<lparr>fs = clash_root, out = [], moved = 0, asked = [''X'', ''[G] X - 01 [AB].mkv'']\<rparr>)
   \<and> organise (fs (snd (organise clash_root))) =
     (Some FileExistsError,
      \<lparr>fs = clash_root, out = [], moved = 0, asked = [''X'', ''[G] X - 01 [AB].mkv'']\<rparr>)"
  by code_simp

end
